theory Spec2Isabelle
  imports Main "HOL-Library.Word"
begin

unbundle bit_operations_syntax

section \<open>Buffers, pointers and errors\<close>

text \<open>
  A C buffer is the list of its elements; a pointer into it is an integer offset from the
  start of the buffer (\<open>text + position\<close> is the offset \<open>position\<close>).  \<open>char\<close> is an
  8-bit word and \<open>wchar_t\<close> a 16-bit word.  A dereference outside the buffer is undefined
  in the source; the model makes it an error value, so that every read is checked.
\<close>

datatype error = ReadOutOfRange int | AssertionFailed

definition deref :: "'a list \<Rightarrow> int \<Rightarrow> error + 'a" where
  "deref text p =
     (if 0 \<le> p \<and> p < int (length text) then Inr (text ! nat p)
      else Inl (ReadOutOfRange p))"

section \<open>GetLineExtentFromPosition\<close>

text \<open>
  The line terminator: \<open>const CharType nl = '\n'\<close>.
\<close>

definition nl :: "'a::len word" where
  "nl = 10"

text \<open>
  The backward loop \<open>for (; start > low; start--) if (*start == nl) break;\<close>
  returns the final value of \<open>start\<close>.
\<close>

function scan_backward :: "'a::len word list \<Rightarrow> int \<Rightarrow> int \<Rightarrow> error + int" where
  "scan_backward text low start =
     (if start > low then
        (case deref text start of
           Inl e \<Rightarrow> Inl e
         | Inr c \<Rightarrow> if c = nl then Inr start else scan_backward text low (start - 1))
      else Inr start)"
  by pat_completeness auto
termination
  by (relation "measure (\<lambda>(text, low, start). nat (start - low))") auto

declare scan_backward.simps [simp del]

text \<open>
  The forward loop \<open>for (; end < high; end++) if (*end == nl) break;\<close>
  returns the final value of \<open>end\<close>.
\<close>

function scan_forward :: "'a::len word list \<Rightarrow> int \<Rightarrow> int \<Rightarrow> error + int" where
  "scan_forward text high end =
     (if end < high then
        (case deref text end of
           Inl e \<Rightarrow> Inl e
         | Inr c \<Rightarrow> if c = nl then Inr end else scan_forward text high (end + 1))
      else Inr end)"
  by pat_completeness auto
termination
  by (relation "measure (\<lambda>(text, high, end). nat (high - end))") auto

declare scan_forward.simps [simp del]

text \<open>
  The template function.  The pointer \<open>text\<close> is offset 0 of the buffer, and the
  \<open>int\<close> arguments are integers: pointer arithmetic does not wrap.  The result is the
  returned flag with the two output parameters \<open>*lineStartPosition\<close> and \<open>*lineLen\<close>.
  The four \<open>assert\<close>s come after both loops, as in the source, and are checked as in a
  build that keeps them.
\<close>

definition GetLineExtentFromPosition ::
  "'a::len word list \<Rightarrow> int \<Rightarrow> int \<Rightarrow> int \<Rightarrow> error + (bool \<times> int \<times> int)" where
  "GetLineExtentFromPosition text textLen position maxOffset =
     (let low = max 0 (0 + position - maxOffset);
          high = min (0 + textLen) (0 + position + maxOffset);
          current = 0 + position
      in case scan_backward text low current of
           Inl e \<Rightarrow> Inl e
         | Inr start \<Rightarrow>
             (case scan_forward text high current of
                Inl e \<Rightarrow> Inl e
              | Inr end \<Rightarrow>
                  if \<not> low \<le> start then Inl AssertionFailed
                  else if \<not> start \<le> high then Inl AssertionFailed
                  else if \<not> low \<le> end then Inl AssertionFailed
                  else if \<not> end \<le> high then Inl AssertionFailed
                  else Inr (True, start - 0, end - start)))"

definition Ascii_GetLineExtentFromPosition ::
  "8 word list \<Rightarrow> int \<Rightarrow> int \<Rightarrow> int \<Rightarrow> error + (bool \<times> int \<times> int)" where
  "Ascii_GetLineExtentFromPosition text textLen position maxOffset =
     GetLineExtentFromPosition text textLen position maxOffset"

definition Utf16_GetLineExtentFromPosition ::
  "16 word list \<Rightarrow> int \<Rightarrow> int \<Rightarrow> int \<Rightarrow> error + (bool \<times> int \<times> int)" where
  "Utf16_GetLineExtentFromPosition text textLen position maxOffset =
     GetLineExtentFromPosition text textLen position maxOffset"

section \<open>Text classification\<close>

datatype TextKind = Ascii | AsciiWithUtf8Bom | Utf8WithBom | Unknown

text \<open>
  \<open>Text_HasUtf8Bom\<close>: the conjunction is short-circuit, so no byte is read unless
  \<open>textLen >= 3\<close>, and a later byte is read only when the earlier ones matched.
\<close>

definition Text_HasUtf8Bom :: "8 word list \<Rightarrow> int \<Rightarrow> error + bool" where
  "Text_HasUtf8Bom text textLen =
     (if \<not> textLen \<ge> 3 then Inr False
      else case deref text 0 of
        Inl e \<Rightarrow> Inl e
      | Inr b0 \<Rightarrow>
          if \<not> b0 = 0xEF then Inr False
          else case deref text 1 of
            Inl e \<Rightarrow> Inl e
          | Inr b1 \<Rightarrow>
              if \<not> b1 = 0xBB then Inr False
              else case deref text 2 of
                Inl e \<Rightarrow> Inl e
              | Inr b2 \<Rightarrow> Inr (b2 = 0xBF))"

text \<open>
  The loop of \<open>Text_IsAscii\<close>, from \<open>textPtr\<close> up to \<open>textEndPtr\<close>; bytes are compared
  as \<open>uint8_t\<close>, which is the order of \<open>8 word\<close>.
\<close>

function Text_IsAscii_loop :: "8 word list \<Rightarrow> int \<Rightarrow> int \<Rightarrow> error + bool" where
  "Text_IsAscii_loop buf textPtr textEndPtr =
     (if textPtr < textEndPtr then
        (case deref buf textPtr of
           Inl e \<Rightarrow> Inl e
         | Inr b \<Rightarrow>
             if b > 0x7f then Inr False
             else Text_IsAscii_loop buf (textPtr + 1) textEndPtr)
      else Inr True)"
  by pat_completeness auto
termination
  by (relation "measure (\<lambda>(buf, textPtr, textEndPtr). nat (textEndPtr - textPtr))") auto

declare Text_IsAscii_loop.simps [simp del]

text \<open>
  \<open>Text_IsAscii\<close> receives a pointer, here the buffer with the offset \<open>text\<close> into it
  (\<open>Text_GetKind\<close> passes \<open>text + 3\<close>).
\<close>

definition Text_IsAscii :: "8 word list \<Rightarrow> int \<Rightarrow> int \<Rightarrow> error + bool" where
  "Text_IsAscii buf text textLen =
     (let textPtr = text; textEndPtr = textPtr + textLen
      in Text_IsAscii_loop buf textPtr textEndPtr)"

definition Text_GetKind :: "8 word list \<Rightarrow> int \<Rightarrow> error + TextKind" where
  "Text_GetKind text textLen =
     (case Text_HasUtf8Bom text textLen of
        Inl e \<Rightarrow> Inl e
      | Inr utf8 \<Rightarrow>
          if utf8 then
            (case Text_IsAscii text (0 + 3) (textLen - 3) of
               Inl e \<Rightarrow> Inl e
             | Inr isAscii \<Rightarrow> if isAscii then Inr AsciiWithUtf8Bom else Inr Utf8WithBom)
          else
            (case Text_IsAscii text 0 textLen of
               Inl e \<Rightarrow> Inl e
             | Inr isAscii \<Rightarrow> if isAscii then Inr Ascii else Inr Unknown))"

section \<open>Ascii\_Compare\<close>

text \<open>
  \<open>memcmp\<close> of the C library: the first \<open>n\<close> bytes of both buffers are compared as
  \<open>unsigned char\<close>; the result is 0 when they agree and has the sign of the first
  difference otherwise.  \<open>size_t\<close> lengths are natural numbers.
\<close>

function memcmp_loop :: "8 word list \<Rightarrow> 8 word list \<Rightarrow> nat \<Rightarrow> nat \<Rightarrow> error + int" where
  "memcmp_loop s1 s2 i n =
     (if i < n then
        (case deref s1 (int i) of
           Inl e \<Rightarrow> Inl e
         | Inr c1 \<Rightarrow>
             (case deref s2 (int i) of
                Inl e \<Rightarrow> Inl e
              | Inr c2 \<Rightarrow>
                  if c1 \<noteq> c2 then Inr (if c1 < c2 then - 1 else 1)
                  else memcmp_loop s1 s2 (i + 1) n))
      else Inr 0)"
  by pat_completeness auto
termination
  by (relation "measure (\<lambda>(s1, s2, i, n). n - i)") auto

declare memcmp_loop.simps [simp del]

definition memcmp :: "8 word list \<Rightarrow> 8 word list \<Rightarrow> nat \<Rightarrow> error + int" where
  "memcmp s1 s2 n = memcmp_loop s1 s2 0 n"

definition Ascii_Compare :: "8 word list \<Rightarrow> nat \<Rightarrow> 8 word list \<Rightarrow> nat \<Rightarrow> error + bool" where
  "Ascii_Compare text1 text1Length text2 text2Length =
     (if text1Length \<noteq> text2Length then Inr False
      else case memcmp text1 text2 text1Length of
        Inl e \<Rightarrow> Inl e
      | Inr r \<Rightarrow> Inr (r = 0))"

section \<open>Search options and creation results\<close>

text \<open>
  Modelled from the spec: the header declaring \<open>AsciiSearchBase\<close> is not part of the
  sources.  \<open>SearchOptions\<close> is a bit set with one flag, match-case, taken as the lowest
  bit.
\<close>

definition kMatchCase :: "32 word" where
  "kMatchCase = 1"

text \<open>
  Modelled from the spec: \<open>SearchCreateResult\<close> is a result record carrying either success
  or an error code and a human-readable message.  A fresh record says success and has an
  empty message; \<open>SetError\<close> stores the code and the message.
\<close>

record SearchCreateResult =
  HResult :: "32 word"
  ErrorMessage :: string

definition S_OK :: "32 word" where
  "S_OK = 0"

definition E_OUTOFMEMORY :: "32 word" where
  "E_OUTOFMEMORY = 0x8007000E"

text \<open>The macro \<open>FAILED(hr)\<close> of the platform headers: the code is negative as a signed value.\<close>

definition FAILED :: "32 word \<Rightarrow> bool" where
  "FAILED hr = (sint hr < 0)"

definition SearchCreateResult_init :: SearchCreateResult where
  "SearchCreateResult_init = \<lparr>HResult = S_OK, ErrorMessage = []\<rparr>"

definition SetError :: "32 word \<Rightarrow> string \<Rightarrow> SearchCreateResult \<Rightarrow> SearchCreateResult" where
  "SetError hr message r = r\<lparr>HResult := hr, ErrorMessage := message\<rparr>"

section \<open>Utf16\_Search\<close>

definition char_equal :: "'a \<Rightarrow> 'a \<Rightarrow> bool" where
  "char_equal ch1 ch2 = (ch1 = ch2)"

text \<open>
  \<open>std::toupper(ch, loc_)\<close> with the default-constructed locale is a parameter of the
  model: the uppercase conversion \<open>toupper\<close>.
\<close>

definition char_equal_icase :: "('a \<Rightarrow> 'a) \<Rightarrow> 'a \<Rightarrow> 'a \<Rightarrow> bool" where
  "char_equal_icase toupper ch1 ch2 = (toupper ch1 = toupper ch2)"

text \<open>
  \<open>std::search(first, last, s_first, s_last, p)\<close> of the C++ standard library, as its
  reference implementation:
  \<^verbatim>\<open>
  while (true) {
    It1 it = first;
    for (It2 s_it = s_first; ; ++it, ++s_it) {
      if (s_it == s_last) return first;
      if (it == last) return last;
      if (!p(*it, *s_it)) break;
    }
    ++first;
  }
  \<close>
  The inner loop either returns from the function or breaks.
\<close>

datatype inner_result = Return int | Break

function search_inner ::
  "('a \<Rightarrow> 'a \<Rightarrow> bool) \<Rightarrow> 'a list \<Rightarrow> int \<Rightarrow> 'a list \<Rightarrow> int \<Rightarrow> int \<Rightarrow> int \<Rightarrow> int
    \<Rightarrow> error + inner_result" where
  "search_inner p buf last' s_buf s_last first it s_it =
     (if s_it = s_last then Inr (Return first)
      else if it = last' then Inr (Return last')
      else case deref buf it of
        Inl e \<Rightarrow> Inl e
      | Inr c \<Rightarrow>
          (case deref s_buf s_it of
             Inl e \<Rightarrow> Inl e
           | Inr s \<Rightarrow>
               if \<not> p c s then Inr Break
               else search_inner p buf last' s_buf s_last first (it + 1) (s_it + 1)))"
  by pat_completeness auto
termination
  by (relation "measure (\<lambda>(p, buf, last', s_buf, s_last, first, it, s_it).
                  nat (int (length buf) - it))")
     (auto simp: deref_def split: if_splits)

declare search_inner.simps [simp del]

lemma search_inner_Break_in_range:
  "search_inner p buf last' s_buf s_last first it s_it = Inr Break \<Longrightarrow> it < int (length buf)"
  by (subst (asm) search_inner.simps)
     (auto simp: deref_def split: if_splits sum.splits)

function std_search ::
  "('a \<Rightarrow> 'a \<Rightarrow> bool) \<Rightarrow> 'a list \<Rightarrow> int \<Rightarrow> int \<Rightarrow> 'a list \<Rightarrow> int \<Rightarrow> int \<Rightarrow> error + int" where
  "std_search p buf first last' s_buf s_first s_last =
     (case search_inner p buf last' s_buf s_last first first s_first of
        Inl e \<Rightarrow> Inl e
      | Inr (Return r) \<Rightarrow> Inr r
      | Inr Break \<Rightarrow> std_search p buf (first + 1) last' s_buf s_first s_last)"
  by pat_completeness auto
termination
  by (relation "measure (\<lambda>(p, buf, first, last', s_buf, s_first, s_last).
                  nat (int (length buf) - first))")
     (auto dest: search_inner_Break_in_range)

declare std_search.simps [simp del]

text \<open>
  The result is a pointer into \<open>text\<close> or \<open>nullptr\<close>: an offset, or \<open>None\<close>.
\<close>

definition Utf16_Search ::
  "(16 word \<Rightarrow> 16 word) \<Rightarrow> 16 word list \<Rightarrow> nat \<Rightarrow> 16 word list \<Rightarrow> nat \<Rightarrow> 32 word
    \<Rightarrow> error + int option" where
  "Utf16_Search toupper text textLength pattern patternLength options =
     (let textEnd = 0 + int textLength;
          patternEnd = 0 + int patternLength
      in case (if options AND kMatchCase \<noteq> 0
               then std_search char_equal text 0 textEnd pattern 0 patternEnd
               else std_search (char_equal_icase toupper) text 0 textEnd pattern 0 patternEnd) of
           Inl e \<Rightarrow> Inl e
         | Inr result \<Rightarrow> if result = textEnd then Inr None else Inr (Some result))"

text \<open>An uppercase conversion for examples: the ASCII letters \<open>a\<close> to \<open>z\<close> only.\<close>

definition ascii_toupper :: "16 word \<Rightarrow> 16 word" where
  "ascii_toupper c = (if 97 \<le> c \<and> c \<le> 122 then c - 32 else c)"

section \<open>AsciiSearchAlgorithm\_Create\<close>

text \<open>
  \<open>enum SearchAlgorithmKind\<close>.  The argument crosses the DLL boundary as an integer, so
  a kind is an \<open>int\<close> that may lie outside the six constants.
\<close>

definition kStrStr :: int where "kStrStr = 1"
definition kBndm32 :: int where "kBndm32 = 2"
definition kBndm64 :: int where "kBndm64 = 3"
definition kBoyerMoore :: int where "kBoyerMoore = 4"
definition kRegex :: int where "kRegex = 5"
definition kRe2 :: int where "kRe2 = 6"

text \<open>
  The engine classes that \<open>new\<close> instantiates.  Their internals live in headers outside
  the sources; an object is represented by its class.
\<close>

datatype CaseMode = CaseSensitive | CaseInsensitive

datatype AsciiSearchBase =
    Bndm32Search CaseMode
  | Bndm64Search CaseMode
  | BoyerMooreSearch
  | StrStrSearch
  | RegexSearch
  | RE2Search

text \<open>
  The free store: a pointer is an index, \<open>new\<close> takes the next index and \<open>delete\<close>
  empties the cell.  Allocation itself does not fail in this model.
\<close>

type_synonym heap = "AsciiSearchBase option list"

definition new_object :: "AsciiSearchBase \<Rightarrow> heap \<Rightarrow> nat \<times> heap" where
  "new_object obj h = (length h, h @ [Some obj])"

definition delete_object :: "nat \<Rightarrow> heap \<Rightarrow> heap" where
  "delete_object p h = h[p := None]"

definition live_objects :: "heap \<Rightarrow> nat list" where
  "live_objects h = filter (\<lambda>p. h ! p \<noteq> None) [0..<length h]"

text \<open>
  The virtual method \<open>PreProcess(pattern, patternLen, options, result)\<close> of the engines
  is a parameter of the model: given the object's class and the arguments it returns the
  result record it leaves behind.
\<close>

type_synonym PreProcess_t =
  "AsciiSearchBase \<Rightarrow> 8 word list \<Rightarrow> int \<Rightarrow> 32 word \<Rightarrow> SearchCreateResult \<Rightarrow> SearchCreateResult"

text \<open>
  The \<open>switch\<close>: the class to instantiate, or nothing when no \<open>case\<close> applies and
  \<open>result\<close> stays \<open>NULL\<close>.
\<close>

definition switch_kind :: "int \<Rightarrow> 32 word \<Rightarrow> AsciiSearchBase option" where
  "switch_kind kind options =
     (if kind = kBndm32 then
        (if options AND kMatchCase \<noteq> 0 then Some (Bndm32Search CaseSensitive)
         else Some (Bndm32Search CaseInsensitive))
      else if kind = kBndm64 then
        (if options AND kMatchCase \<noteq> 0 then Some (Bndm64Search CaseSensitive)
         else Some (Bndm64Search CaseInsensitive))
      else if kind = kBoyerMoore then Some BoyerMooreSearch
      else if kind = kStrStr then Some StrStrSearch
      else if kind = kRegex then Some RegexSearch
      else if kind = kRe2 then Some RE2Search
      else None)"

text \<open>
  The function returns the pointer (\<open>None\<close> for \<open>NULL\<close>), the record written through
  \<open>searchCreateResult\<close>, and the free store.
\<close>

definition AsciiSearchAlgorithm_Create ::
  "PreProcess_t \<Rightarrow> int \<Rightarrow> 8 word list \<Rightarrow> int \<Rightarrow> 32 word \<Rightarrow> heap
    \<Rightarrow> nat option \<times> SearchCreateResult \<times> heap" where
  "AsciiSearchAlgorithm_Create PreProcess kind pattern patternLen options h =
     (let searchCreateResult = SearchCreateResult_init
      in case switch_kind kind options of
           None \<Rightarrow> (None, SetError E_OUTOFMEMORY ''Out of memory'' searchCreateResult, h)
         | Some obj \<Rightarrow>
             (let (result, h1) = new_object obj h;
                  searchCreateResult = PreProcess obj pattern patternLen options searchCreateResult
              in if FAILED (HResult searchCreateResult)
                 then (None, searchCreateResult, delete_object result h1)
                 else (Some result, searchCreateResult, h1)))"

text \<open>Two preprocessing steps for examples: one accepts every pattern, one rejects every pattern.\<close>

definition PreProcess_accept :: PreProcess_t where
  "PreProcess_accept obj pattern patternLen options r = r"

definition PreProcess_reject :: PreProcess_t where
  "PreProcess_reject obj pattern patternLen options r = SetError 0x80070057 ''Invalid pattern'' r"

section \<open>Predicates used in the statements\<close>

text \<open>The buffer starts with the UTF-8 byte-order mark \<open>EF BB BF\<close>.\<close>

definition starts_with_bom :: "8 word list \<Rightarrow> bool" where
  "starts_with_bom text = (take 3 text = [0xEF, 0xBB, 0xBF])"

text \<open>
  Two characters match under the options: equal when match-case is set, equal after
  uppercase conversion when it is clear.
\<close>

definition chars_match :: "(16 word \<Rightarrow> 16 word) \<Rightarrow> 32 word \<Rightarrow> 16 word \<Rightarrow> 16 word \<Rightarrow> bool" where
  "chars_match toupper options c1 c2 =
     (if options AND kMatchCase \<noteq> 0 then c1 = c2 else toupper c1 = toupper c2)"

text \<open>
  The pattern occurs in the text at offset \<open>k\<close>: the \<open>length pattern\<close> characters of the
  text from \<open>k\<close> on exist and match the pattern one by one.
\<close>

definition occurs_at :: "('a \<Rightarrow> 'a \<Rightarrow> bool) \<Rightarrow> 'a list \<Rightarrow> 'a list \<Rightarrow> nat \<Rightarrow> bool" where
  "occurs_at eq text pattern k = list_all2 eq (take (length pattern) (drop k text)) pattern"

text \<open>
  The buffer is a proper prefix of the byte-order mark: shorter than the mark and equal
  to its first bytes.  The empty buffer is one.
\<close>

definition proper_bom_prefix :: "8 word list \<Rightarrow> bool" where
  "proper_bom_prefix text =
     (length text < 3 \<and> text = take (length text) [0xEF, 0xBB, 0xBF])"

text \<open>
  The preprocessing step of an engine of class \<open>obj\<close> accepts the pattern: the record it
  leaves, started from a fresh one, does not say failure.
\<close>

definition accepts :: "PreProcess_t \<Rightarrow> AsciiSearchBase \<Rightarrow> 8 word list \<Rightarrow> int \<Rightarrow> 32 word \<Rightarrow> bool" where
  "accepts PreProcess obj pattern patternLen options =
     (\<not> FAILED (HResult (PreProcess obj pattern patternLen options SearchCreateResult_init)))"

text \<open>
  The call builds an engine of class \<open>obj\<close>: it returns a pointer to a new object of that
  class, added to the free store, with the record that object's preprocessing step wrote.
\<close>

definition builds ::
  "PreProcess_t \<Rightarrow> int \<Rightarrow> 8 word list \<Rightarrow> int \<Rightarrow> 32 word \<Rightarrow> heap \<Rightarrow> AsciiSearchBase \<Rightarrow> bool" where
  "builds PreProcess kind pattern patternLen options h obj =
     (AsciiSearchAlgorithm_Create PreProcess kind pattern patternLen options h =
        (Some (length h),
         PreProcess obj pattern patternLen options SearchCreateResult_init,
         h @ [Some obj]))"

section \<open>Reads inside the buffer\<close>

lemma deref_in_range:
  "0 \<le> p \<Longrightarrow> p < int (length buf) \<Longrightarrow> deref buf p = Inr (buf ! nat p)"
  by (simp add: deref_def)

section \<open>Properties of GetLineExtentFromPosition\<close>

text \<open>The two loops stop at the first newline they read, or at their bound.\<close>

lemma scan_backward_stops:
  "low \<le> s \<Longrightarrow> s \<le> start \<Longrightarrow> 0 \<le> s \<Longrightarrow> start < int (length buf) \<Longrightarrow>
   (\<forall>i. s < i \<and> i \<le> start \<longrightarrow> buf ! nat i \<noteq> nl) \<Longrightarrow>
   s = low \<or> buf ! nat s = nl \<Longrightarrow>
   scan_backward buf low start = Inr s"
proof (induction buf low start rule: scan_backward.induct)
  case (1 buf low start)
  show ?case
  proof (cases "start > low")
    case False
    with "1.prems" show ?thesis by (subst scan_backward.simps) simp
  next
    case True
    with "1.prems" have d: "deref buf start = Inr (buf ! nat start)"
      by (simp add: deref_def)
    show ?thesis
    proof (cases "s = start")
      case True
      with \<open>start > low\<close> "1.prems" have "buf ! nat start = nl" by auto
      with \<open>start > low\<close> d True show ?thesis by (subst scan_backward.simps) simp
    next
      case False
      with "1.prems" have lt: "s < start" by simp
      with "1.prems" have nn: "buf ! nat start \<noteq> nl" by simp
      from "1.IH" [OF \<open>start > low\<close> d nn] "1.prems" lt
      have "scan_backward buf low (start - 1) = Inr s" by simp
      with \<open>start > low\<close> d nn show ?thesis by (subst scan_backward.simps) simp
    qed
  qed
qed

lemma scan_forward_stops:
  "e0 \<le> e \<Longrightarrow> e \<le> high \<Longrightarrow> 0 \<le> e0 \<Longrightarrow> high \<le> int (length buf) \<Longrightarrow>
   (\<forall>i. e0 \<le> i \<and> i < e \<longrightarrow> buf ! nat i \<noteq> nl) \<Longrightarrow>
   e = high \<or> buf ! nat e = nl \<Longrightarrow>
   scan_forward buf high e0 = Inr e"
proof (induction buf high e0 rule: scan_forward.induct)
  case (1 buf high e0)
  show ?case
  proof (cases "e0 < high")
    case False
    with "1.prems" show ?thesis by (subst scan_forward.simps) simp
  next
    case True
    with "1.prems" have d: "deref buf e0 = Inr (buf ! nat e0)"
      by (simp add: deref_def)
    show ?thesis
    proof (cases "e = e0")
      case True
      with \<open>e0 < high\<close> "1.prems" have "buf ! nat e0 = nl" by auto
      with \<open>e0 < high\<close> d True show ?thesis by (subst scan_forward.simps) simp
    next
      case False
      with "1.prems" have lt: "e0 < e" by simp
      with "1.prems" have nn: "buf ! nat e0 \<noteq> nl" by simp
      from "1.IH" [OF \<open>e0 < high\<close> d nn] "1.prems" lt
      have "scan_forward buf high (e0 + 1) = Inr e" by simp
      with \<open>e0 < high\<close> d nn show ?thesis by (subst scan_forward.simps) simp
    qed
  qed
qed

text \<open>
  For every buffer of the form \<open>a \n b \n c\<close> with no newline in \<open>b\<close>, every position
  inside \<open>b\<close> and every \<open>maxOffset\<close> that reaches both newlines, the backward loop stops
  on the newline before \<open>b\<close>, not after it: the start is the offset of that newline and
  the length is one more than the length of \<open>b\<close>.
\<close>

lemma GetLineExtent_middle_line:
  fixes a b c :: "'a::len word list"
  assumes shape: "text = a @ [nl] @ b @ [nl] @ c"
    and b: "nl \<notin> set b"
    and tl: "textLen = int (length text)"
    and pos: "int (length a) < position" "position \<le> int (length a) + int (length b)"
    and reach: "position - maxOffset \<le> int (length a)"
               "int (length a) + 1 + int (length b) \<le> position + maxOffset"
  shows "GetLineExtentFromPosition text textLen position maxOffset =
           Inr (True, int (length a), int (length b) + 1)"
proof -
  let ?low = "max 0 (position - maxOffset)"
  let ?high = "min textLen (position + maxOffset)"
  let ?s = "int (length a)"
  let ?e = "int (length a) + 1 + int (length b)"
  have len: "int (length text) = int (length a) + 1 + int (length b) + 1 + int (length c)"
    by (simp add: shape)
  have at_s: "text ! nat ?s = nl" by (simp add: shape)
  have at_e: "text ! nat ?e = nl"
  proof -
    have "nat ?e = length (a @ [nl] @ b)" by simp
    then show ?thesis unfolding shape by (metis append.assoc append_Cons nth_append_length)
  qed
  have inb: "text ! nat i \<noteq> nl" if "?s < i" "i < ?e" for i
  proof -
    define k where "k = nat i - (length a + 1)"
    from that have k: "nat i = length a + (1 + k)" "k < length b"
      unfolding k_def by linarith+
    have "text ! nat i = b ! k"
      unfolding k(1) shape by (simp add: nth_append k(2))
    with k(2) b show ?thesis by (metis nth_mem)
  qed
  have sb: "scan_backward text ?low position = Inr ?s"
    using pos reach len at_s inb by (intro scan_backward_stops) auto
  have sf: "scan_forward text ?high position = Inr ?e"
    using pos reach len at_e inb tl by (intro scan_forward_stops) auto
  from sb sf pos reach len tl show ?thesis
    by (simp add: GetLineExtentFromPosition_def Let_def)
qed

text \<open>
  C1.  The claim fails on the code.  On the buffer \<open>aaa\nbbb\nccc\<close> of the spec, with
  position 5 inside \<open>bbb\<close> and \<open>maxOffset = 10\<close>, both the byte and the wide variant
  return \<open>lineStartPosition = 3\<close>, the offset of the preceding newline, and
  \<open>lineLen = 4\<close>: the region \<open>\nbbb\<close>, where the claim says start 4 and length 3.
\<close>

theorem GetLineExtent_starts_on_newline:
  "Ascii_GetLineExtentFromPosition [97, 97, 97, 10, 98, 98, 98, 10, 99, 99, 99] 11 5 10
     = Inr (True, 3, 4)
   \<and> Utf16_GetLineExtentFromPosition [97, 97, 97, 10, 98, 98, 98, 10, 99, 99, 99] 11 5 10
     = Inr (True, 3, 4)"
  by (simp add: Ascii_GetLineExtentFromPosition_def Utf16_GetLineExtentFromPosition_def
        GetLineExtentFromPosition_def scan_backward.simps scan_forward.simps deref_def nl_def)

text \<open>
  With the position inside the buffer no read leaves the buffer, and with a radius that
  is not negative the four assertions hold and the extent lies within both bounds.
\<close>

lemma scan_backward_total:
  "0 \<le> low \<Longrightarrow> start < int (length buf) \<Longrightarrow>
   \<exists>s. scan_backward buf low start = Inr s \<and> s \<le> start \<and> (low \<le> start \<longrightarrow> low \<le> s)"
proof (induction buf low start rule: scan_backward.induct)
  case (1 buf low start)
  show ?case
  proof (cases "start > low")
    case False
    then show ?thesis by (subst scan_backward.simps) simp
  next
    case True
    with "1.prems" have d: "deref buf start = Inr (buf ! nat start)"
      by (simp add: deref_def)
    show ?thesis
    proof (cases "buf ! nat start = nl")
      case True
      with \<open>start > low\<close> d show ?thesis by (subst scan_backward.simps) simp
    next
      case False
      from "1.IH" [OF \<open>start > low\<close> d False] "1.prems"
      obtain s where "scan_backward buf low (start - 1) = Inr s" "s \<le> start - 1"
        "low \<le> start - 1 \<longrightarrow> low \<le> s" by auto
      with \<open>start > low\<close> d False show ?thesis by (subst scan_backward.simps) simp
    qed
  qed
qed

lemma scan_forward_total:
  "0 \<le> e0 \<Longrightarrow> high \<le> int (length buf) \<Longrightarrow>
   \<exists>e. scan_forward buf high e0 = Inr e \<and> e0 \<le> e \<and> (e0 \<le> high \<longrightarrow> e \<le> high)"
proof (induction buf high e0 rule: scan_forward.induct)
  case (1 buf high e0)
  show ?case
  proof (cases "e0 < high")
    case False
    then show ?thesis by (subst scan_forward.simps) simp
  next
    case True
    with "1.prems" have d: "deref buf e0 = Inr (buf ! nat e0)"
      by (simp add: deref_def)
    show ?thesis
    proof (cases "buf ! nat e0 = nl")
      case True
      with \<open>e0 < high\<close> d show ?thesis by (subst scan_forward.simps) simp
    next
      case False
      from "1.IH" [OF \<open>e0 < high\<close> d False] "1.prems"
      obtain e where "scan_forward buf high (e0 + 1) = Inr e" "e0 + 1 \<le> e"
        "e0 + 1 \<le> high \<longrightarrow> e \<le> high" by auto
      with \<open>e0 < high\<close> d False show ?thesis by (subst scan_forward.simps) simp
    qed
  qed
qed

lemma GetLineExtent_position_in_buffer:
  assumes "textLen = int (length text)" and "0 \<le> position" and "position < textLen"
    and "0 \<le> maxOffset"
  shows "\<exists>start len. GetLineExtentFromPosition text textLen position maxOffset = Inr (True, start, len)
           \<and> max 0 (position - maxOffset) \<le> start \<and> start \<le> position
           \<and> position \<le> start + len \<and> start + len \<le> min textLen (position + maxOffset)"
proof -
  let ?low = "max 0 (position - maxOffset)"
  let ?high = "min textLen (position + maxOffset)"
  from scan_backward_total [of ?low position "text"] assms
  obtain s where s: "scan_backward text ?low position = Inr s" "s \<le> position" "?low \<le> s"
    by auto
  from scan_forward_total [of position ?high "text"] assms
  obtain e where e: "scan_forward text ?high position = Inr e" "position \<le> e" "e \<le> ?high"
    by auto
  from s e show ?thesis
    by (simp add: GetLineExtentFromPosition_def Let_def)
qed

text \<open>
  C2.  The claim fails on the code: the bounds \<open>low\<close> and \<open>high\<close> are clamped to the
  buffer, the position is not.  With a one-character buffer and \<open>position = textLen = 1\<close>
  the backward loop reads \<open>text[1]\<close>, one past the end, in both variants; with
  \<open>position = -1\<close> the forward loop reads \<open>text[-1]\<close>.
\<close>

theorem GetLineExtent_reads_outside_buffer:
  "Ascii_GetLineExtentFromPosition [97] 1 1 1 = Inl (ReadOutOfRange 1)
   \<and> Utf16_GetLineExtentFromPosition [97] 1 1 1 = Inl (ReadOutOfRange 1)
   \<and> Ascii_GetLineExtentFromPosition [97] 1 (- 1) 1 = Inl (ReadOutOfRange (- 1))"
  by (simp add: Ascii_GetLineExtentFromPosition_def Utf16_GetLineExtentFromPosition_def
        GetLineExtentFromPosition_def scan_backward.simps scan_forward.simps deref_def nl_def)

section \<open>Properties of the text classification\<close>

lemma Text_IsAscii_loop_all:
  "0 \<le> textPtr \<Longrightarrow> textEndPtr = int (length buf) \<Longrightarrow>
   Text_IsAscii_loop buf textPtr textEndPtr = Inr (\<forall>b \<in> set (drop (nat textPtr) buf). b \<le> 0x7f)"
proof (induction buf textPtr textEndPtr rule: Text_IsAscii_loop.induct)
  case (1 buf textPtr textEndPtr)
  show ?case
  proof (cases "textPtr < textEndPtr")
    case False
    with "1.prems" show ?thesis by (subst Text_IsAscii_loop.simps) simp
  next
    case True
    with "1.prems" have d: "deref buf textPtr = Inr (buf ! nat textPtr)"
      by (simp add: deref_in_range)
    from True "1.prems" have lt: "nat textPtr < length buf" by linarith
    have dr: "drop (nat textPtr) buf = buf ! nat textPtr # drop (nat (textPtr + 1)) buf"
      using Cons_nth_drop_Suc [OF lt] "1.prems"(1) by (simp add: nat_add_distrib)
    show ?thesis
    proof (cases "buf ! nat textPtr > 0x7f")
      case hi: True
      then have "\<not> (\<forall>b \<in> set (drop (nat textPtr) buf). b \<le> 0x7f)"
        by (subst dr) (simp add: not_le)
      with True d hi show ?thesis by (subst Text_IsAscii_loop.simps) simp
    next
      case lo: False
      from "1.prems" have "0 \<le> textPtr + 1" by simp
      with "1.IH" [OF True d lo] "1.prems"(2)
      have "Text_IsAscii_loop buf (textPtr + 1) textEndPtr =
              Inr (\<forall>b \<in> set (drop (nat (textPtr + 1)) buf). b \<le> 0x7f)"
        by simp
      moreover have "(\<forall>b \<in> set (drop (nat textPtr) buf). b \<le> 0x7f) =
                     (\<forall>b \<in> set (drop (nat (textPtr + 1)) buf). b \<le> 0x7f)"
        using lo by (subst dr) (simp add: not_less)
      ultimately show ?thesis
        using True d lo by (subst Text_IsAscii_loop.simps) simp
    qed
  qed
qed

lemma Text_HasUtf8Bom_eq:
  "textLen = int (length text) \<Longrightarrow> Text_HasUtf8Bom text textLen = Inr (starts_with_bom text)"
proof (cases "length text \<ge> 3")
  case False
  assume "textLen = int (length text)"
  with False show ?thesis
    by (auto simp: Text_HasUtf8Bom_def starts_with_bom_def dest: arg_cong [where f = length])
next
  case True
  assume tl: "textLen = int (length text)"
  from True obtain b0 b1 b2 rest where t: "text = b0 # b1 # b2 # rest"
    by (metis Suc_le_length_iff numeral_3_eq_3)
  show ?thesis
    by (simp add: Text_HasUtf8Bom_def starts_with_bom_def tl t deref_def)
qed

text \<open>
  C4.  For a buffer \<open>text\<close> of \<open>textLen\<close> bytes, \<open>Text_GetKind\<close> returns
  \<open>AsciiWithUtf8Bom\<close> when the buffer starts with \<open>EF BB BF\<close> and every later byte is at
  most \<open>0x7F\<close>, \<open>Utf8WithBom\<close> when it starts with \<open>EF BB BF\<close> and some later byte is
  at least \<open>0x80\<close>, \<open>Ascii\<close> when the prefix is absent and every byte is at most
  \<open>0x7F\<close> (the empty buffer is such a buffer), and \<open>Unknown\<close> when the prefix is absent
  and some byte is at least \<open>0x80\<close>.  No read leaves the buffer.
\<close>

theorem Text_GetKind_classifies:
  assumes "textLen = int (length text)"
  shows "(starts_with_bom text \<and> (\<forall>b \<in> set (drop 3 text). b \<le> 0x7F)
            \<longrightarrow> Text_GetKind text textLen = Inr AsciiWithUtf8Bom)
       \<and> (starts_with_bom text \<and> (\<exists>b \<in> set (drop 3 text). b \<ge> 0x80)
            \<longrightarrow> Text_GetKind text textLen = Inr Utf8WithBom)
       \<and> (\<not> starts_with_bom text \<and> (\<forall>b \<in> set text. b \<le> 0x7F)
            \<longrightarrow> Text_GetKind text textLen = Inr Ascii)
       \<and> (\<not> starts_with_bom text \<and> (\<exists>b \<in> set text. b \<ge> 0x80)
            \<longrightarrow> Text_GetKind text textLen = Inr Unknown)"
proof -
  have hi: "(b \<ge> 0x80) = (\<not> b \<le> 0x7F)" for b :: "8 word"
    by (simp add: word_le_nat_alt not_le) unat_arith
  have whole: "Text_IsAscii text 0 textLen = Inr (\<forall>b \<in> set text. b \<le> 0x7F)"
    using Text_IsAscii_loop_all [of 0 textLen "text"] assms by (simp add: Text_IsAscii_def)
  have rest: "Text_IsAscii text 3 (textLen - 3) = Inr (\<forall>b \<in> set (drop 3 text). b \<le> 0x7F)"
    using Text_IsAscii_loop_all [of 3 textLen "text"] assms by (simp add: Text_IsAscii_def)
  have bom: "Text_HasUtf8Bom text textLen = Inr (starts_with_bom text)"
    using assms by (rule Text_HasUtf8Bom_eq)
  show ?thesis
    by (simp add: Text_GetKind_def bom whole rest hi)
qed

theorem Text_GetKind_classifies_witness:
  "Text_GetKind [0xEF, 0xBB, 0xBF, 0x68, 0x69] 5 = Inr AsciiWithUtf8Bom
   \<and> Text_GetKind [0xEF, 0xBB, 0xBF, 0x68, 0xC3, 0xA9] 6 = Inr Utf8WithBom
   \<and> Text_GetKind [] 0 = Inr Ascii
   \<and> Text_GetKind [0x68, 0xC3, 0xA9] 3 = Inr Unknown"
  using Text_GetKind_classifies [of 5 "[0xEF, 0xBB, 0xBF, 0x68, 0x69]"]
        Text_GetKind_classifies [of 6 "[0xEF, 0xBB, 0xBF, 0x68, 0xC3, 0xA9]"]
        Text_GetKind_classifies [of 0 "[]"]
        Text_GetKind_classifies [of 3 "[0x68, 0xC3, 0xA9]"]
  by (simp add: starts_with_bom_def)

text \<open>
  C9, as stated, fails on one buffer: the empty buffer is a proper prefix of the byte-order
  mark, and it is classified \<open>Ascii\<close>, not \<open>Unknown\<close>.
\<close>

theorem Text_GetKind_empty_prefix_counterexample:
  "proper_bom_prefix [] \<and> Text_GetKind [] 0 = Inr Ascii \<and> Text_GetKind [] 0 \<noteq> Inr Unknown"
  by (simp add: proper_bom_prefix_def Text_GetKind_def Text_HasUtf8Bom_def Text_IsAscii_def
        Text_IsAscii_loop.simps)

text \<open>
  C9, amended.  A buffer of fewer than three bytes is classified \<open>Ascii\<close> or \<open>Unknown\<close>,
  never as one of the two kinds with a byte-order mark; every non-empty proper prefix of
  the mark (\<open>EF\<close> and \<open>EF BB\<close>) is \<open>Unknown\<close>, and the empty buffer is \<open>Ascii\<close>.
\<close>

theorem Text_GetKind_short:
  assumes "textLen = int (length text)" and "textLen < 3"
  shows "(Text_GetKind text textLen = Inr Ascii \<or> Text_GetKind text textLen = Inr Unknown)
       \<and> (proper_bom_prefix text \<and> text \<noteq> [] \<longrightarrow> Text_GetKind text textLen = Inr Unknown)
       \<and> (text = [] \<longrightarrow> Text_GetKind text textLen = Inr Ascii)"
proof -
  have nb: "\<not> starts_with_bom text"
    using assms by (auto simp: starts_with_bom_def dest: arg_cong [where f = length])
  have whole: "Text_IsAscii text 0 textLen = Inr (\<forall>b \<in> set text. b \<le> 0x7F)"
    using Text_IsAscii_loop_all [of 0 textLen "text"] assms by (simp add: Text_IsAscii_def)
  have bom: "Text_HasUtf8Bom text textLen = Inr (starts_with_bom text)"
    using assms(1) by (rule Text_HasUtf8Bom_eq)
  have kind: "Text_GetKind text textLen =
                Inr (if \<forall>b \<in> set text. b \<le> 0x7F then Ascii else Unknown)"
    using nb by (simp add: Text_GetKind_def bom whole)
  have 1: "Text_GetKind text textLen = Inr Ascii \<or> Text_GetKind text textLen = Inr Unknown"
    by (simp add: kind)
  have 2: "Text_GetKind text textLen = Inr Unknown" if p: "proper_bom_prefix text" and ne: "text \<noteq> []"
  proof -
    from ne obtain b bs where t: "text = b # bs" by (cases "text") auto
    from p have "text = take (length text) [0xEF, 0xBB, 0xBF]"
      by (simp add: proper_bom_prefix_def)
    with t have "b = 0xEF" by (metis list.inject take_Suc_Cons length_Cons)
    with t have "\<not> (\<forall>b \<in> set text. b \<le> 0x7F)" by simp
    then show ?thesis by (simp add: kind)
  qed
  have 3: "Text_GetKind text textLen = Inr Ascii" if "text = []"
    unfolding kind using that by simp
  from 1 2 3 show ?thesis by blast
qed

theorem Text_GetKind_short_witness:
  "Text_GetKind [0xEF] 1 = Inr Unknown
   \<and> Text_GetKind [0xEF, 0xBB] 2 = Inr Unknown
   \<and> Text_GetKind [] 0 = Inr Ascii
   \<and> (Text_GetKind [0x41, 0xBB] 2 = Inr Ascii \<or> Text_GetKind [0x41, 0xBB] 2 = Inr Unknown)"
  using Text_GetKind_short [of 1 "[0xEF]"] Text_GetKind_short [of 2 "[0xEF, 0xBB]"]
        Text_GetKind_short [of 0 "[]"] Text_GetKind_short [of 2 "[0x41, 0xBB]"]
  by (simp add: proper_bom_prefix_def)

section \<open>Properties of Ascii\_Compare\<close>

lemma memcmp_loop_zero:
  "n \<le> length s1 \<Longrightarrow> n \<le> length s2 \<Longrightarrow>
   \<exists>r. memcmp_loop s1 s2 i n = Inr r \<and> (r = 0) = (\<forall>j. i \<le> j \<and> j < n \<longrightarrow> s1 ! j = s2 ! j)"
proof (induction s1 s2 i n rule: memcmp_loop.induct)
  case (1 s1 s2 i n)
  show ?case
  proof (cases "i < n")
    case False
    then show ?thesis by (subst memcmp_loop.simps) auto
  next
    case True
    with "1.prems" have d1: "deref s1 (int i) = Inr (s1 ! i)" and d2: "deref s2 (int i) = Inr (s2 ! i)"
      by (simp_all add: deref_def)
    show ?thesis
    proof (cases "s1 ! i = s2 ! i")
      case ne: False
      with True have "\<not> (\<forall>j. i \<le> j \<and> j < n \<longrightarrow> s1 ! j = s2 ! j)" by auto
      with True d1 d2 ne show ?thesis by (subst memcmp_loop.simps) simp
    next
      case eq: True
      from "1.IH" [OF True d1 d2] eq "1.prems"
      obtain r where r: "memcmp_loop s1 s2 (i + 1) n = Inr r"
        and z: "(r = 0) = (\<forall>j. i + 1 \<le> j \<and> j < n \<longrightarrow> s1 ! j = s2 ! j)"
        by auto
      have "(\<forall>j. i + 1 \<le> j \<and> j < n \<longrightarrow> s1 ! j = s2 ! j) = (\<forall>j. i \<le> j \<and> j < n \<longrightarrow> s1 ! j = s2 ! j)"
        using eq by (metis Suc_eq_plus1 Suc_leI le_eq_less_or_eq Suc_leD)
      with True d1 d2 eq r z show ?thesis by (subst memcmp_loop.simps) simp
    qed
  qed
qed

text \<open>
  C6.  For buffers \<open>text1\<close> of \<open>text1Length\<close> bytes and \<open>text2\<close> of \<open>text2Length\<close>
  bytes, \<open>Ascii_Compare\<close> returns true exactly when the lengths are equal and the buffers
  are the same byte for byte; a different length or a different byte gives false.
\<close>

theorem Ascii_Compare_iff:
  assumes "text1Length = length text1" and "text2Length = length text2"
  shows "Ascii_Compare text1 text1Length text2 text2Length =
           Inr (text1Length = text2Length \<and> text1 = text2)"
proof (cases "text1Length = text2Length")
  case False
  then show ?thesis by (simp add: Ascii_Compare_def)
next
  case True
  with assms have len: "length text1 = length text2" by simp
  from memcmp_loop_zero [of text1Length text1 text2 0] assms True
  obtain r where r: "memcmp text1 text2 text1Length = Inr r"
    and z: "(r = 0) = (\<forall>j. j < text1Length \<longrightarrow> text1 ! j = text2 ! j)"
    by (auto simp: memcmp_def)
  have "(\<forall>j. j < text1Length \<longrightarrow> text1 ! j = text2 ! j) = (text1 = text2)"
    using len assms(1) by (auto simp: list_eq_iff_nth_eq)
  with True r z show ?thesis by (simp add: Ascii_Compare_def)
qed

theorem Ascii_Compare_iff_witness:
  "Ascii_Compare [0x61, 0x62, 0x63] 3 [0x61, 0x62, 0x63] 3 = Inr True
   \<and> Ascii_Compare [0x61, 0x62, 0x63] 3 [0x61, 0x62, 0x64] 3 = Inr False
   \<and> Ascii_Compare [0x61, 0x62, 0x63] 3 [0x61, 0x62] 2 = Inr False"
  using Ascii_Compare_iff [of 3 "[0x61, 0x62, 0x63]" 3 "[0x61, 0x62, 0x63]"]
        Ascii_Compare_iff [of 3 "[0x61, 0x62, 0x63]" 3 "[0x61, 0x62, 0x64]"]
        Ascii_Compare_iff [of 3 "[0x61, 0x62, 0x63]" 2 "[0x61, 0x62]"]
  by simp

section \<open>Properties of AsciiSearchAlgorithm\_Create\<close>

lemma FAILED_E_OUTOFMEMORY: "FAILED E_OUTOFMEMORY"
  by (simp add: FAILED_def E_OUTOFMEMORY_def)

lemma live_objects_new:
  "live_objects (h @ [Some obj]) = live_objects h @ [length h]"
proof -
  have "filter (\<lambda>p. (h @ [Some obj]) ! p \<noteq> None) [0..<length h] =
        filter (\<lambda>p. h ! p \<noteq> None) [0..<length h]"
    by (rule filter_cong) (simp_all add: nth_append)
  then show ?thesis by (simp add: live_objects_def)
qed

lemma live_objects_new_delete:
  "live_objects (h @ [None]) = live_objects h"
proof -
  have "filter (\<lambda>p. (h @ [None]) ! p \<noteq> None) [0..<length h] =
        filter (\<lambda>p. h ! p \<noteq> None) [0..<length h]"
    by (rule filter_cong) (simp_all add: nth_append)
  then show ?thesis by (simp add: live_objects_def)
qed

lemma Create_no_class:
  "switch_kind kind options = None \<Longrightarrow>
   AsciiSearchAlgorithm_Create PreProcess kind pattern patternLen options h =
     (None, \<lparr>HResult = E_OUTOFMEMORY, ErrorMessage = ''Out of memory''\<rparr>, h)"
  by (simp add: AsciiSearchAlgorithm_Create_def SetError_def SearchCreateResult_init_def)

lemma Create_class:
  "switch_kind kind options = Some obj \<Longrightarrow>
   AsciiSearchAlgorithm_Create PreProcess kind pattern patternLen options h =
     (if FAILED (HResult (PreProcess obj pattern patternLen options SearchCreateResult_init))
      then (None, PreProcess obj pattern patternLen options SearchCreateResult_init,
            (h @ [Some obj])[length h := None])
      else (Some (length h), PreProcess obj pattern patternLen options SearchCreateResult_init,
            h @ [Some obj]))"
  by (simp add: AsciiSearchAlgorithm_Create_def new_object_def delete_object_def Let_def)

text \<open>
  C7.  Whatever the kind, pattern, options and preprocessing step,
  \<open>AsciiSearchAlgorithm_Create\<close> either returns a pointer to a new live object with a
  result record that says success, or returns \<open>NULL\<close> with a result record whose code is a
  failure: the out-of-memory record, or the record the preprocessing step wrote.  In the
  second case the live objects are those from before the call, so an object built before
  a failed preprocessing step has been deleted.
\<close>

theorem Create_instance_or_error:
  assumes "AsciiSearchAlgorithm_Create PreProcess kind pattern patternLen options h = (result, r, h')"
  shows "(\<exists>obj. result = Some (length h) \<and> \<not> FAILED (HResult r) \<and> h' = h @ [Some obj]
            \<and> r = PreProcess obj pattern patternLen options SearchCreateResult_init
            \<and> live_objects h' = live_objects h @ [length h])
       \<or> (result = None \<and> FAILED (HResult r) \<and> live_objects h' = live_objects h
            \<and> (r = \<lparr>HResult = E_OUTOFMEMORY, ErrorMessage = ''Out of memory''\<rparr>
                \<or> (\<exists>obj. r = PreProcess obj pattern patternLen options SearchCreateResult_init)))"
proof (cases "switch_kind kind options")
  case None
  from assms Create_no_class [OF None, of PreProcess pattern patternLen h]
  show ?thesis by (auto simp: FAILED_E_OUTOFMEMORY)
next
  case (Some obj)
  from assms Create_class [OF Some, of PreProcess pattern patternLen h]
  show ?thesis
    by (auto simp: live_objects_new live_objects_new_delete split: if_splits)
qed

theorem Create_instance_or_error_witness:
  "(\<exists>result r h'. AsciiSearchAlgorithm_Create PreProcess_reject kRegex [0x28] 1 0 [] = (result, r, h')
      \<and> result = None \<and> FAILED (HResult r) \<and> live_objects h' = [])
   \<and> (\<exists>result r h'. AsciiSearchAlgorithm_Create PreProcess_accept kRegex [0x28] 1 0 [] = (result, r, h')
      \<and> result = Some 0 \<and> \<not> FAILED (HResult r) \<and> live_objects h' = [0])"
proof -
  have a: "AsciiSearchAlgorithm_Create PreProcess_reject kRegex [0x28] 1 0 [] =
             (None, \<lparr>HResult = 0x80070057, ErrorMessage = ''Invalid pattern''\<rparr>, [None])"
    by (simp add: AsciiSearchAlgorithm_Create_def switch_kind_def PreProcess_reject_def
          SetError_def SearchCreateResult_init_def new_object_def delete_object_def FAILED_def
          kStrStr_def kBndm32_def kBndm64_def kBoyerMoore_def kRegex_def kRe2_def)
  have b: "AsciiSearchAlgorithm_Create PreProcess_accept kRegex [0x28] 1 0 [] =
             (Some 0, \<lparr>HResult = S_OK, ErrorMessage = []\<rparr>, [Some RegexSearch])"
    by (simp add: AsciiSearchAlgorithm_Create_def switch_kind_def PreProcess_accept_def
          SetError_def SearchCreateResult_init_def new_object_def delete_object_def FAILED_def S_OK_def
          kStrStr_def kBndm32_def kBndm64_def kBoyerMoore_def kRegex_def kRe2_def)
  from Create_instance_or_error [OF a] Create_instance_or_error [OF b] a b
  show ?thesis
    by (simp add: live_objects_def FAILED_def S_OK_def PreProcess_accept_def
          SearchCreateResult_init_def)
qed

text \<open>
  C8.  For a kind outside the six constants the function returns \<open>NULL\<close>, the result
  record holds \<open>E_OUTOFMEMORY\<close> with the message \<open>Out of memory\<close>, and nothing is
  allocated, whatever the pattern, the options and the preprocessing step.
\<close>

theorem Create_unknown_kind:
  assumes "kind \<notin> {kStrStr, kBndm32, kBndm64, kBoyerMoore, kRegex, kRe2}"
  shows "AsciiSearchAlgorithm_Create PreProcess kind pattern patternLen options h =
           (None, \<lparr>HResult = E_OUTOFMEMORY, ErrorMessage = ''Out of memory''\<rparr>, h)"
  using assms
  by (simp add: AsciiSearchAlgorithm_Create_def switch_kind_def SetError_def
                SearchCreateResult_init_def)

theorem Create_unknown_kind_witness:
  "AsciiSearchAlgorithm_Create PreProcess_accept 7 [0x61] 1 1 [] =
     (None, \<lparr>HResult = E_OUTOFMEMORY, ErrorMessage = ''Out of memory''\<rparr>, [])
   \<and> AsciiSearchAlgorithm_Create PreProcess_accept 0 [0x61] 1 0 [] =
     (None, \<lparr>HResult = E_OUTOFMEMORY, ErrorMessage = ''Out of memory''\<rparr>, [])"
  using Create_unknown_kind [of 7 PreProcess_accept "[0x61]" 1 1 "[]"]
        Create_unknown_kind [of 0 PreProcess_accept "[0x61]" 1 0 "[]"]
  by (simp add: kStrStr_def kBndm32_def kBndm64_def kBoyerMoore_def kRegex_def kRe2_def)

text \<open>
  C3, as stated, fails: for a 40-byte pattern the kind \<open>kBndm32\<close> builds the narrow
  bit-parallel engine and the kind \<open>kBndm64\<close> the wide one, and \<open>kBndm64\<close> builds the
  wide engine for a 3-byte pattern as well.
\<close>

theorem Create_ignores_length_counterexample:
  "AsciiSearchAlgorithm_Create PreProcess_accept kBndm32 (replicate 40 0x61) 40 1 [] =
     (Some 0, \<lparr>HResult = S_OK, ErrorMessage = []\<rparr>, [Some (Bndm32Search CaseSensitive)])
   \<and> AsciiSearchAlgorithm_Create PreProcess_accept kBndm64 (replicate 40 0x61) 40 1 [] =
     (Some 0, \<lparr>HResult = S_OK, ErrorMessage = []\<rparr>, [Some (Bndm64Search CaseSensitive)])
   \<and> AsciiSearchAlgorithm_Create PreProcess_accept kBndm64 (replicate 3 0x61) 3 1 [] =
     (Some 0, \<lparr>HResult = S_OK, ErrorMessage = []\<rparr>, [Some (Bndm64Search CaseSensitive)])"
  by (simp add: AsciiSearchAlgorithm_Create_def switch_kind_def PreProcess_accept_def
        SearchCreateResult_init_def new_object_def FAILED_def S_OK_def kMatchCase_def
        kStrStr_def kBndm32_def kBndm64_def kBoyerMoore_def kRegex_def kRe2_def)

lemma Create_builds:
  "switch_kind kind options = Some obj \<Longrightarrow> accepts PreProcess obj pattern patternLen options \<Longrightarrow>
   builds PreProcess kind pattern patternLen options h obj"
  by (simp add: builds_def accepts_def Create_class)

text \<open>
  C3, amended.  The class of the engine that \<open>AsciiSearchAlgorithm_Create\<close> builds is
  fixed by the kind the caller passed and the options, for every pattern and pattern
  length.  Whenever the preprocessing step accepts the pattern, the call builds the narrow
  bit-parallel engine for \<open>kBndm32\<close> and the wide one for \<open>kBndm64\<close> (case-sensitive
  with match-case set, case-insensitive with it clear), the general sub-linear engine for
  \<open>kBoyerMoore\<close>, the literal scan for \<open>kStrStr\<close> and the two regex engines for
  \<open>kRegex\<close> and \<open>kRe2\<close>.  Conversely the engine a successful call returns is of each
  of these classes exactly for its kind, and every other successful call with the same
  kind and options, whatever its pattern and pattern length, returns the same class.
\<close>

theorem Create_selects_by_kind:
  "(kind = kBndm32 \<and> options AND kMatchCase \<noteq> 0
      \<and> accepts PreProcess (Bndm32Search CaseSensitive) pattern patternLen options
      \<longrightarrow> builds PreProcess kind pattern patternLen options h (Bndm32Search CaseSensitive))
   \<and> (kind = kBndm32 \<and> options AND kMatchCase = 0
      \<and> accepts PreProcess (Bndm32Search CaseInsensitive) pattern patternLen options
      \<longrightarrow> builds PreProcess kind pattern patternLen options h (Bndm32Search CaseInsensitive))
   \<and> (kind = kBndm64 \<and> options AND kMatchCase \<noteq> 0
      \<and> accepts PreProcess (Bndm64Search CaseSensitive) pattern patternLen options
      \<longrightarrow> builds PreProcess kind pattern patternLen options h (Bndm64Search CaseSensitive))
   \<and> (kind = kBndm64 \<and> options AND kMatchCase = 0
      \<and> accepts PreProcess (Bndm64Search CaseInsensitive) pattern patternLen options
      \<longrightarrow> builds PreProcess kind pattern patternLen options h (Bndm64Search CaseInsensitive))
   \<and> (kind = kBoyerMoore \<and> accepts PreProcess BoyerMooreSearch pattern patternLen options
      \<longrightarrow> builds PreProcess kind pattern patternLen options h BoyerMooreSearch)
   \<and> (kind = kStrStr \<and> accepts PreProcess StrStrSearch pattern patternLen options
      \<longrightarrow> builds PreProcess kind pattern patternLen options h StrStrSearch)
   \<and> (kind = kRegex \<and> accepts PreProcess RegexSearch pattern patternLen options
      \<longrightarrow> builds PreProcess kind pattern patternLen options h RegexSearch)
   \<and> (kind = kRe2 \<and> accepts PreProcess RE2Search pattern patternLen options
      \<longrightarrow> builds PreProcess kind pattern patternLen options h RE2Search)
   \<and> (\<forall>p r h'.
         AsciiSearchAlgorithm_Create PreProcess kind pattern patternLen options h = (Some p, r, h')
         \<longrightarrow> (\<exists>obj. h' ! p = Some obj
               \<and> (obj \<in> {Bndm32Search CaseSensitive, Bndm32Search CaseInsensitive}) = (kind = kBndm32)
               \<and> (obj \<in> {Bndm64Search CaseSensitive, Bndm64Search CaseInsensitive}) = (kind = kBndm64)
               \<and> (obj = BoyerMooreSearch) = (kind = kBoyerMoore)
               \<and> (obj = StrStrSearch) = (kind = kStrStr)
               \<and> (obj = RegexSearch) = (kind = kRegex)
               \<and> (obj = RE2Search) = (kind = kRe2)
               \<and> (\<forall>PreProcess2 pattern2 patternLen2 h2 p2 r2 h2'.
                     AsciiSearchAlgorithm_Create PreProcess2 kind pattern2 patternLen2 options h2
                       = (Some p2, r2, h2')
                     \<longrightarrow> h2' ! p2 = Some obj)))"
proof -
  note ks = kStrStr_def kBndm32_def kBndm64_def kBoyerMoore_def kRegex_def kRe2_def
  have f1: "kind = kBndm32 \<and> options AND kMatchCase \<noteq> 0
      \<and> accepts PreProcess (Bndm32Search CaseSensitive) pattern patternLen options
      \<longrightarrow> builds PreProcess kind pattern patternLen options h (Bndm32Search CaseSensitive)"
    by (auto intro!: Create_builds simp: switch_kind_def)
  have f2: "kind = kBndm32 \<and> options AND kMatchCase = 0
      \<and> accepts PreProcess (Bndm32Search CaseInsensitive) pattern patternLen options
      \<longrightarrow> builds PreProcess kind pattern patternLen options h (Bndm32Search CaseInsensitive)"
    by (auto intro!: Create_builds simp: switch_kind_def)
  have f3: "kind = kBndm64 \<and> options AND kMatchCase \<noteq> 0
      \<and> accepts PreProcess (Bndm64Search CaseSensitive) pattern patternLen options
      \<longrightarrow> builds PreProcess kind pattern patternLen options h (Bndm64Search CaseSensitive)"
    by (auto intro!: Create_builds simp: switch_kind_def ks)
  have f4: "kind = kBndm64 \<and> options AND kMatchCase = 0
      \<and> accepts PreProcess (Bndm64Search CaseInsensitive) pattern patternLen options
      \<longrightarrow> builds PreProcess kind pattern patternLen options h (Bndm64Search CaseInsensitive)"
    by (auto intro!: Create_builds simp: switch_kind_def ks)
  have f5: "kind = kBoyerMoore \<and> accepts PreProcess BoyerMooreSearch pattern patternLen options
      \<longrightarrow> builds PreProcess kind pattern patternLen options h BoyerMooreSearch"
    by (auto intro!: Create_builds simp: switch_kind_def ks)
  have f6: "kind = kStrStr \<and> accepts PreProcess StrStrSearch pattern patternLen options
      \<longrightarrow> builds PreProcess kind pattern patternLen options h StrStrSearch"
    by (auto intro!: Create_builds simp: switch_kind_def ks)
  have f7: "kind = kRegex \<and> accepts PreProcess RegexSearch pattern patternLen options
      \<longrightarrow> builds PreProcess kind pattern patternLen options h RegexSearch"
    by (auto intro!: Create_builds simp: switch_kind_def ks)
  have f8: "kind = kRe2 \<and> accepts PreProcess RE2Search pattern patternLen options
      \<longrightarrow> builds PreProcess kind pattern patternLen options h RE2Search"
    by (auto intro!: Create_builds simp: switch_kind_def ks)
  have conv: "\<exists>obj. h' ! p = Some obj
               \<and> (obj \<in> {Bndm32Search CaseSensitive, Bndm32Search CaseInsensitive}) = (kind = kBndm32)
               \<and> (obj \<in> {Bndm64Search CaseSensitive, Bndm64Search CaseInsensitive}) = (kind = kBndm64)
               \<and> (obj = BoyerMooreSearch) = (kind = kBoyerMoore)
               \<and> (obj = StrStrSearch) = (kind = kStrStr)
               \<and> (obj = RegexSearch) = (kind = kRegex)
               \<and> (obj = RE2Search) = (kind = kRe2)
               \<and> (\<forall>PreProcess2 pattern2 patternLen2 h2 p2 r2 h2'.
                     AsciiSearchAlgorithm_Create PreProcess2 kind pattern2 patternLen2 options h2
                       = (Some p2, r2, h2')
                     \<longrightarrow> h2' ! p2 = Some obj)"
    if c: "AsciiSearchAlgorithm_Create PreProcess kind pattern patternLen options h = (Some p, r, h')"
    for p r h'
  proof (cases "switch_kind kind options")
    case None
    from c Create_no_class [OF None, of PreProcess pattern patternLen h]
    show ?thesis by simp
  next
    case (Some obj)
    from c Create_class [OF Some, of PreProcess pattern patternLen h]
    have 1: "h' ! p = Some obj" by (auto split: if_splits)
    from Some have 2: "(obj \<in> {Bndm32Search CaseSensitive, Bndm32Search CaseInsensitive}) = (kind = kBndm32)"
      and 3: "(obj \<in> {Bndm64Search CaseSensitive, Bndm64Search CaseInsensitive}) = (kind = kBndm64)"
      and 4: "(obj = BoyerMooreSearch) = (kind = kBoyerMoore)"
      and 5: "(obj = StrStrSearch) = (kind = kStrStr)"
      and 6: "(obj = RegexSearch) = (kind = kRegex)"
      and 7: "(obj = RE2Search) = (kind = kRe2)"
      by (auto simp: switch_kind_def ks split: if_splits)
    have 8: "h2' ! p2 = Some obj"
      if "AsciiSearchAlgorithm_Create PreProcess2 kind pattern2 patternLen2 options h2 = (Some p2, r2, h2')"
      for PreProcess2 pattern2 patternLen2 h2 p2 r2 h2'
      using that Create_class [OF Some, of PreProcess2 pattern2 patternLen2 h2]
      by (auto split: if_splits)
    from 1 2 3 4 5 6 7 8 show ?thesis by blast
  qed
  from f1 f2 f3 f4 f5 f6 f7 f8 conv show ?thesis by blast
qed

theorem Create_selects_by_kind_witness:
  "AsciiSearchAlgorithm_Create PreProcess_accept kBndm32 (replicate 40 0x61) 40 1 [] =
     (Some 0, \<lparr>HResult = S_OK, ErrorMessage = []\<rparr>, [Some (Bndm32Search CaseSensitive)])
   \<and> AsciiSearchAlgorithm_Create PreProcess_accept kBndm32 (replicate 40 0x61) 40 0 [] =
     (Some 0, \<lparr>HResult = S_OK, ErrorMessage = []\<rparr>, [Some (Bndm32Search CaseInsensitive)])
   \<and> AsciiSearchAlgorithm_Create PreProcess_accept kBndm64 (replicate 3 0x61) 3 1 [] =
     (Some 0, \<lparr>HResult = S_OK, ErrorMessage = []\<rparr>, [Some (Bndm64Search CaseSensitive)])
   \<and> AsciiSearchAlgorithm_Create PreProcess_accept kBndm64 (replicate 3 0x61) 3 0 [] =
     (Some 0, \<lparr>HResult = S_OK, ErrorMessage = []\<rparr>, [Some (Bndm64Search CaseInsensitive)])
   \<and> AsciiSearchAlgorithm_Create PreProcess_accept kBoyerMoore (replicate 3 0x61) 3 0 [] =
     (Some 0, \<lparr>HResult = S_OK, ErrorMessage = []\<rparr>, [Some BoyerMooreSearch])
   \<and> AsciiSearchAlgorithm_Create PreProcess_accept kStrStr (replicate 3 0x61) 3 0 [] =
     (Some 0, \<lparr>HResult = S_OK, ErrorMessage = []\<rparr>, [Some StrStrSearch])
   \<and> AsciiSearchAlgorithm_Create PreProcess_accept kRegex (replicate 3 0x61) 3 0 [] =
     (Some 0, \<lparr>HResult = S_OK, ErrorMessage = []\<rparr>, [Some RegexSearch])
   \<and> AsciiSearchAlgorithm_Create PreProcess_accept kRe2 (replicate 3 0x61) 3 0 [] =
     (Some 0, \<lparr>HResult = S_OK, ErrorMessage = []\<rparr>, [Some RE2Search])"
  using Create_selects_by_kind [of kBndm32 1 PreProcess_accept "replicate 40 0x61" 40 "[]"]
        Create_selects_by_kind [of kBndm32 0 PreProcess_accept "replicate 40 0x61" 40 "[]"]
        Create_selects_by_kind [of kBndm64 1 PreProcess_accept "replicate 3 0x61" 3 "[]"]
        Create_selects_by_kind [of kBndm64 0 PreProcess_accept "replicate 3 0x61" 3 "[]"]
        Create_selects_by_kind [of kBoyerMoore 0 PreProcess_accept "replicate 3 0x61" 3 "[]"]
        Create_selects_by_kind [of kStrStr 0 PreProcess_accept "replicate 3 0x61" 3 "[]"]
        Create_selects_by_kind [of kRegex 0 PreProcess_accept "replicate 3 0x61" 3 "[]"]
        Create_selects_by_kind [of kRe2 0 PreProcess_accept "replicate 3 0x61" 3 "[]"]
  by (simp add: builds_def accepts_def PreProcess_accept_def FAILED_def S_OK_def
        SearchCreateResult_init_def kMatchCase_def
        kStrStr_def kBndm32_def kBndm64_def kBoyerMoore_def kRegex_def kRe2_def)

section \<open>Properties of Utf16\_Search\<close>

text \<open>An occurrence, read by index.\<close>

lemma occurs_at_nth:
  "occurs_at eq text pattern k =
     (length pattern \<le> length text - k \<and>
      (\<forall>j<length pattern. eq (text ! (k + j)) (pattern ! j)))"
proof (cases "length pattern \<le> length text - k")
  case True
  then have "length (take (length pattern) (drop k text)) = length pattern" by simp
  moreover have "take (length pattern) (drop k text) ! j = text ! (k + j)" if "j < length pattern" for j
    using that True by simp
  ultimately show ?thesis
    using True by (simp add: occurs_at_def list_all2_conv_all_nth)
next
  case False
  then have "length (take (length pattern) (drop k text)) \<noteq> length pattern" by simp
  with False show ?thesis
    by (auto simp: occurs_at_def dest: list_all2_lengthD)
qed

lemma search_inner_spec:
  "i \<le> length buf \<Longrightarrow> j \<le> length s_buf \<Longrightarrow>
   search_inner p buf (int (length buf)) s_buf (int (length s_buf)) first (int i) (int j) =
     Inr (if list_all2 p (take (length s_buf - j) (drop i buf)) (drop j s_buf) then Return first
          else if list_all2 p (drop i buf) (take (length buf - i) (drop j s_buf))
               then Return (int (length buf))
          else Break)"
proof (induction "length buf - i" arbitrary: i j)
  case 0
  then have i: "i = length buf" by simp
  show ?case
  proof (cases "j = length s_buf")
    case True
    then show ?thesis by (subst search_inner.simps) simp
  next
    case False
    with "0.prems" have "drop j s_buf \<noteq> []" by simp
    then show ?thesis using False i by (subst search_inner.simps) simp
  qed
next
  case (Suc n)
  then have i: "i < length buf" by simp
  show ?case
  proof (cases "j = length s_buf")
    case True
    then show ?thesis by (subst search_inner.simps) simp
  next
    case False
    with Suc.prems have j: "j < length s_buf" by simp
    have di: "drop i buf = buf ! i # drop (Suc i) buf"
      using i by (simp add: Cons_nth_drop_Suc)
    have dj: "drop j s_buf = s_buf ! j # drop (Suc j) s_buf"
      using j by (simp add: Cons_nth_drop_Suc)
    have d1: "deref buf (int i) = Inr (buf ! i)" using i by (simp add: deref_def)
    have d2: "deref s_buf (int j) = Inr (s_buf ! j)" using j by (simp add: deref_def)
    have tj: "length s_buf - j = Suc (length s_buf - Suc j)" using j by simp
    have ti: "length buf - i = Suc (length buf - Suc i)" using i by simp
    have m1: "list_all2 p (take (length s_buf - j) (drop i buf)) (drop j s_buf) =
                (p (buf ! i) (s_buf ! j) \<and>
                 list_all2 p (take (length s_buf - Suc j) (drop (Suc i) buf)) (drop (Suc j) s_buf))"
      by (subst di, subst dj, subst tj) simp
    have m2: "list_all2 p (drop i buf) (take (length buf - i) (drop j s_buf)) =
                (p (buf ! i) (s_buf ! j) \<and>
                 list_all2 p (drop (Suc i) buf) (take (length buf - Suc i) (drop (Suc j) s_buf)))"
      by (subst di, subst dj, subst ti) simp
    have ne: "int j \<noteq> int (length s_buf)" "int i \<noteq> int (length buf)"
      using i j by simp_all
    have step: "int i + 1 = int (Suc i)" "int j + 1 = int (Suc j)" by simp_all
    show ?thesis
    proof (cases "p (buf ! i) (s_buf ! j)")
      case False
      show ?thesis
        by (subst search_inner.simps) (simp only: ne d1 d2 m1 m2 False if_True if_False sum.case simp_thms)
    next
      case True
      from Suc.hyps(2) i have n: "n = length buf - Suc i" by simp
      from i j have le: "Suc i \<le> length buf" "Suc j \<le> length s_buf" by simp_all
      note IH = Suc.hyps(1) [OF n le]
      show ?thesis
        by (subst search_inner.simps)
           (simp only: ne d1 d2 m1 m2 True step IH if_True if_False sum.case simp_thms)
    qed
  qed
qed

lemma search_inner_at:
  assumes "k \<le> length buf"
  shows "search_inner p buf (int (length buf)) s_buf (int (length s_buf)) (int k) (int k) 0 =
     Inr (if occurs_at p buf s_buf k then Return (int k)
          else if list_all2 p (drop k buf) (take (length buf - k) s_buf)
               then Return (int (length buf))
          else Break)"
  using search_inner_spec [OF assms, of 0 s_buf p "int k"] by (simp add: occurs_at_def)

lemma occurs_at_bound:
  assumes "occurs_at p buf pat m" and "pat \<noteq> []"
  shows "m + length pat \<le> length buf"
proof -
  from assms(1) have "length (take (length pat) (drop m buf)) = length pat"
    unfolding occurs_at_def by (rule list_all2_lengthD)
  then have "length pat \<le> length buf - m" by simp
  moreover from assms(2) have "0 < length pat" by simp
  ultimately show ?thesis by arith
qed

lemma exhausted_no_later:
  assumes "\<not> occurs_at p buf pat k"
    and "list_all2 p (drop k buf) (take (length buf - k) pat)"
    and "k \<le> m"
  shows "\<not> occurs_at p buf pat m"
proof
  assume occ: "occurs_at p buf pat m"
  have short: "length buf - k < length pat"
  proof (rule ccontr)
    assume "\<not> length buf - k < length pat"
    then have "take (length buf - k) pat = pat" by simp
    with assms(2) have a: "list_all2 p (drop k buf) pat" by simp
    then have "length (drop k buf) = length pat" by (rule list_all2_lengthD)
    then have "take (length pat) (drop k buf) = drop k buf" by simp
    with a assms(1) show False by (simp add: occurs_at_def)
  qed
  from occ have "length (take (length pat) (drop m buf)) = length pat"
    unfolding occurs_at_def by (rule list_all2_lengthD)
  with short assms(3) show False by simp
qed

lemma std_search_spec:
  "k \<le> length buf \<Longrightarrow> pat \<noteq> [] \<Longrightarrow>
   \<exists>r. std_search p buf (int k) (int (length buf)) pat 0 (int (length pat)) = Inr r \<and>
       ((\<exists>m. r = int m \<and> k \<le> m \<and> m < length buf \<and> occurs_at p buf pat m \<and>
             (\<forall>j. k \<le> j \<and> j < m \<longrightarrow> \<not> occurs_at p buf pat j))
        \<or> (r = int (length buf) \<and> (\<forall>m. k \<le> m \<longrightarrow> \<not> occurs_at p buf pat m)))"
proof (induction "length buf - k" arbitrary: k)
  case 0
  then have k: "k = length buf" by simp
  have no: "\<not> occurs_at p buf pat m" if "k \<le> m" for m
    using occurs_at_bound [of p buf pat m] that k "0.prems"(2) by (cases pat) auto
  have "\<not> occurs_at p buf pat k" using no by simp
  moreover have "list_all2 p (drop k buf) (take (length buf - k) pat)" using k by simp
  ultimately have "std_search p buf (int k) (int (length buf)) pat 0 (int (length pat)) =
          Inr (int (length buf))"
    using search_inner_at [OF "0.prems"(1), of p pat]
    by (subst std_search.simps) simp
  with no show ?case by simp
next
  case (Suc n)
  then have k: "k < length buf" by simp
  note inner = search_inner_at [OF Suc.prems(1), of p pat]
  show ?case
  proof (cases "occurs_at p buf pat k")
    case True
    with inner have "std_search p buf (int k) (int (length buf)) pat 0 (int (length pat)) = Inr (int k)"
      by (subst std_search.simps) simp
    with True k show ?thesis by auto
  next
    case nk: False
    show ?thesis
    proof (cases "list_all2 p (drop k buf) (take (length buf - k) pat)")
      case True
      with inner nk have "std_search p buf (int k) (int (length buf)) pat 0 (int (length pat)) =
          Inr (int (length buf))"
        by (subst std_search.simps) simp
      moreover have "\<forall>m. k \<le> m \<longrightarrow> \<not> occurs_at p buf pat m"
        using exhausted_no_later [OF nk True] by blast
      ultimately show ?thesis by simp
    next
      case False
      from Suc.hyps(2) k have n: "n = length buf - Suc k" by simp
      from k have le: "Suc k \<le> length buf" by simp
      from Suc.hyps(1) [OF n le Suc.prems(2)]
      obtain r where r: "std_search p buf (int (Suc k)) (int (length buf)) pat 0 (int (length pat)) = Inr r"
        and alt: "(\<exists>m. r = int m \<and> Suc k \<le> m \<and> m < length buf \<and> occurs_at p buf pat m \<and>
                    (\<forall>j. Suc k \<le> j \<and> j < m \<longrightarrow> \<not> occurs_at p buf pat j))
                \<or> (r = int (length buf) \<and> (\<forall>m. Suc k \<le> m \<longrightarrow> \<not> occurs_at p buf pat m))"
        by blast
      have step: "int k + 1 = int (Suc k)" by simp
      from inner nk False
      have s: "std_search p buf (int k) (int (length buf)) pat 0 (int (length pat)) = Inr r"
        by (subst std_search.simps) (simp only: step r if_False sum.case inner_result.case)
      have ext: "\<not> occurs_at p buf pat j" if "k \<le> j" "j < m" "\<forall>j. Suc k \<le> j \<and> j < m \<longrightarrow> \<not> occurs_at p buf pat j" for j m
        using that nk by (cases "j = k") auto
      from alt show ?thesis
      proof
        assume "\<exists>m. r = int m \<and> Suc k \<le> m \<and> m < length buf \<and> occurs_at p buf pat m \<and>
                    (\<forall>j. Suc k \<le> j \<and> j < m \<longrightarrow> \<not> occurs_at p buf pat j)"
        then obtain m where m: "r = int m" "Suc k \<le> m" "m < length buf" "occurs_at p buf pat m"
          "\<forall>j. Suc k \<le> j \<and> j < m \<longrightarrow> \<not> occurs_at p buf pat j" by blast
        then have "\<forall>j. k \<le> j \<and> j < m \<longrightarrow> \<not> occurs_at p buf pat j" using ext by blast
        with m s show ?thesis by (intro exI [of _ r]) auto
      next
        assume a: "r = int (length buf) \<and> (\<forall>m. Suc k \<le> m \<longrightarrow> \<not> occurs_at p buf pat m)"
        then have "\<forall>m. k \<le> m \<longrightarrow> \<not> occurs_at p buf pat m"
          using nk by (metis Suc_leI le_neq_implies_less)
        with a s show ?thesis by simp
      qed
    qed
  qed
qed


lemma Utf16_Search_unfold:
  "Utf16_Search toupper text textLength pattern patternLength options =
     (case std_search (chars_match toupper options) text 0 (int textLength)
             pattern 0 (int patternLength) of
        Inl e \<Rightarrow> Inl e
      | Inr result \<Rightarrow> if result = int textLength then Inr None else Inr (Some result))"
proof (cases "options AND kMatchCase = 0")
  case True
  then have "chars_match toupper options = char_equal_icase toupper"
    by (simp add: chars_match_def char_equal_icase_def fun_eq_iff)
  with True show ?thesis by (simp add: Utf16_Search_def Let_def)
next
  case False
  then have "chars_match toupper options = char_equal"
    by (simp add: chars_match_def char_equal_def fun_eq_iff)
  with False show ?thesis by (simp add: Utf16_Search_def Let_def)
qed

text \<open>
  C5.  For a text of \<open>textLength\<close> characters and a non-empty pattern of
  \<open>patternLength\<close> characters, \<open>Utf16_Search\<close> returns the offset \<open>k\<close> exactly when the
  pattern occurs at \<open>k\<close> and at no smaller offset, where characters match by equality
  with match-case set and by equal uppercase conversions with it clear; it returns
  \<open>nullptr\<close> exactly when the pattern occurs nowhere; and it always returns one of the two.
\<close>

theorem Utf16_Search_first_occurrence:
  assumes "textLength = length text" and "patternLength = length pattern" and "pattern \<noteq> []"
  shows "(\<forall>k. (Utf16_Search toupper text textLength pattern patternLength options
                 = Inr (Some (int k))) =
              (occurs_at (chars_match toupper options) text pattern k \<and>
               (\<forall>j<k. \<not> occurs_at (chars_match toupper options) text pattern j)))
       \<and> ((Utf16_Search toupper text textLength pattern patternLength options = Inr None) =
              (\<forall>k. \<not> occurs_at (chars_match toupper options) text pattern k))
       \<and> ((\<exists>k. Utf16_Search toupper text textLength pattern patternLength options
                 = Inr (Some (int k)))
            \<or> Utf16_Search toupper text textLength pattern patternLength options = Inr None)"
proof -
  let ?p = "chars_match toupper options"
  let ?U = "Utf16_Search toupper text textLength pattern patternLength options"
  from std_search_spec [of 0 "text" pattern ?p] assms(3)
  obtain r where r: "std_search ?p text 0 (int (length text)) pattern 0 (int (length pattern)) = Inr r"
    and alt: "(\<exists>m. r = int m \<and> m < length text \<and> occurs_at ?p text pattern m \<and>
                 (\<forall>j. j < m \<longrightarrow> \<not> occurs_at ?p text pattern j))
              \<or> (r = int (length text) \<and> (\<forall>m. \<not> occurs_at ?p text pattern m))"
    by auto
  from r assms have U: "?U = (if r = int (length text) then Inr None else Inr (Some r))"
    by (simp add: Utf16_Search_unfold)
  from alt show ?thesis
  proof
    assume "\<exists>m. r = int m \<and> m < length text \<and> occurs_at ?p text pattern m \<and>
                 (\<forall>j. j < m \<longrightarrow> \<not> occurs_at ?p text pattern j)"
    then obtain m where m: "r = int m" "m < length text" "occurs_at ?p text pattern m"
      "\<forall>j. j < m \<longrightarrow> \<not> occurs_at ?p text pattern j" by blast
    from U m have Um: "?U = Inr (Some (int m))" by simp
    have uniq: "(m = k) = (occurs_at ?p text pattern k \<and> (\<forall>j<k. \<not> occurs_at ?p text pattern j))" for k
      using m(3,4) by (metis linorder_neqE_nat)
    have 1: "\<forall>k. (?U = Inr (Some (int k))) =
                (occurs_at ?p text pattern k \<and> (\<forall>j<k. \<not> occurs_at ?p text pattern j))"
      unfolding Um using uniq by simp
    have 2: "(?U = Inr None) = (\<forall>k. \<not> occurs_at ?p text pattern k)"
      unfolding Um using m(3) by auto
    have 3: "\<exists>k. ?U = Inr (Some (int k))"
      using Um by blast
    from 1 2 3 show ?thesis by blast
  next
    assume a: "r = int (length text) \<and> (\<forall>m. \<not> occurs_at ?p text pattern m)"
    with U have "?U = Inr None" by simp
    with a show ?thesis by simp
  qed
qed

theorem Utf16_Search_first_occurrence_witness:
  "Utf16_Search ascii_toupper [88, 65, 66] 3 [97, 98] 2 0 = Inr (Some 1)
   \<and> Utf16_Search ascii_toupper [88, 97, 98] 3 [97, 98] 2 1 = Inr (Some 1)
   \<and> Utf16_Search ascii_toupper [88, 65, 66] 3 [97, 98] 2 1 = Inr None"
proof -
  have len: "(3::nat) = length [88, 65, 66 :: 16 word]" "(3::nat) = length [88, 97, 98 :: 16 word]"
    "(2::nat) = length [97, 98 :: 16 word]" "[97, 98 :: 16 word] \<noteq> []"
    by simp_all
  have drops: "drop k [88, 65, 66 :: 16 word] =
      (if k = 0 then [88, 65, 66] else if k = 1 then [65, 66]
       else if k = 2 then [66] else [])" for k
    by (simp add: drop_Cons')
  from Utf16_Search_first_occurrence [OF len(1) len(3) len(4), of ascii_toupper 0]
  have "(Utf16_Search ascii_toupper [88, 65, 66] 3 [97, 98] 2 0 = Inr (Some (int 1))) =
          (occurs_at (chars_match ascii_toupper 0) [88, 65, 66] [97, 98] 1 \<and>
           (\<forall>j<1. \<not> occurs_at (chars_match ascii_toupper 0) [88, 65, 66] [97, 98] j))"
    by blast
  then have 1: "Utf16_Search ascii_toupper [88, 65, 66] 3 [97, 98] 2 0 = Inr (Some 1)"
    by (simp add: occurs_at_def chars_match_def kMatchCase_def ascii_toupper_def)
  from Utf16_Search_first_occurrence [OF len(2) len(3) len(4), of ascii_toupper 1]
  have "(Utf16_Search ascii_toupper [88, 97, 98] 3 [97, 98] 2 1 = Inr (Some (int 1))) =
          (occurs_at (chars_match ascii_toupper 1) [88, 97, 98] [97, 98] 1 \<and>
           (\<forall>j<1. \<not> occurs_at (chars_match ascii_toupper 1) [88, 97, 98] [97, 98] j))"
    by blast
  then have 2: "Utf16_Search ascii_toupper [88, 97, 98] 3 [97, 98] 2 1 = Inr (Some 1)"
    by (simp add: occurs_at_def chars_match_def kMatchCase_def)
  from Utf16_Search_first_occurrence [OF len(1) len(3) len(4), of ascii_toupper 1]
  have "(Utf16_Search ascii_toupper [88, 65, 66] 3 [97, 98] 2 1 = Inr None) =
          (\<forall>k. \<not> occurs_at (chars_match ascii_toupper 1) [88, 65, 66] [97, 98] k)"
    by blast
  then have 3: "Utf16_Search ascii_toupper [88, 65, 66] 3 [97, 98] 2 1 = Inr None"
    by (simp add: occurs_at_def chars_match_def kMatchCase_def drops)
  from 1 2 3 show ?thesis by simp
qed

text \<open>
  C10.  With \<open>patternLength = 0\<close> the search returns offset 0 when the text is not empty
  and \<open>nullptr\<close> when the text is empty.
\<close>

theorem Utf16_Search_empty_pattern:
  "Utf16_Search toupper text textLength pattern 0 options =
     Inr (if textLength > 0 then Some 0 else None)"
  by (simp add: Utf16_Search_def std_search.simps [of _ _ 0] search_inner.simps [of _ _ _ _ 0 _ _ 0])

end
